theory Spec2Isabelle
  imports Complex_Main "HOL-Library.Multiset" "HOL-Library.List_Lexorder" "HOL-Library.Product_Lexorder"
begin

section \<open>Khmer text summarization: the extractive summarizer, the facade and the endpoint\<close>

text \<open>
  The development embeds \<^verbatim>\<open>backend/model_handler.py\<close> (class \<^verbatim>\<open>KhmerSummarizer\<close>)
  and the \<^verbatim>\<open>/api/summarize\<close> handler of \<^verbatim>\<open>backend/app.py\<close>.
\<close>

subsection \<open>Strings\<close>

text \<open>
  A Python \<^verbatim>\<open>str\<close> is a sequence of Unicode code points, and \<^verbatim>\<open>len\<close> counts code points.
  The Khmer delimiters lie outside ASCII, so a string is a list of code points here.
  Python compares strings lexicographically by code point, a proper prefix being smaller:
  this is the order of \<^verbatim>\<open>List_Lexorder\<close>.
\<close>

type_synonym ustr = "nat list"

definition KHAN :: nat where
  \<comment> \<open>U+17D4, the Khmer sign khan, the first character of the class in the pattern\<close>
  "KHAN = 6100"

definition BARIYOOSAN :: nat where
  \<comment> \<open>U+17D5, the Khmer sign bariyoosan, the second character of the class\<close>
  "BARIYOOSAN = 6101"

definition is_delimiter :: "nat \<Rightarrow> bool" where
  "is_delimiter c \<longleftrightarrow> c = KHAN \<or> c = BARIYOOSAN"

definition has_delimiter :: "ustr \<Rightarrow> bool" where
  "has_delimiter text \<longleftrightarrow> list_ex is_delimiter text"

text \<open>
  \<^verbatim>\<open>re.split(r'[..]', text)\<close>: the text is cut at every character of the class, and \<open>k\<close>
  delimiters give \<open>k + 1\<close> pieces, empty ones included. \<open>cur\<close> holds the piece being read,
  reversed.
\<close>

fun re_split_from :: "ustr \<Rightarrow> ustr \<Rightarrow> ustr list" where
  "re_split_from cur [] = [rev cur]"
| "re_split_from cur (c # cs) =
     (if is_delimiter c then rev cur # re_split_from [] cs else re_split_from (c # cur) cs)"

definition re_split :: "ustr \<Rightarrow> ustr list" where
  "re_split text = re_split_from [] text"

definition isspace :: "nat \<Rightarrow> bool" where
  \<comment> \<open>the code points that \<^verbatim>\<open>str.strip()\<close> removes: those for which \<^verbatim>\<open>str.isspace\<close> holds\<close>
  "isspace c \<longleftrightarrow>
     (9 \<le> c \<and> c \<le> 13) \<or> (28 \<le> c \<and> c \<le> 32) \<or> c = 133 \<or> c = 160 \<or> c = 5760 \<or>
     (8192 \<le> c \<and> c \<le> 8202) \<or> c = 8232 \<or> c = 8233 \<or> c = 8239 \<or> c = 8287 \<or> c = 12288"

definition strip :: "ustr \<Rightarrow> ustr" where
  "strip s = rev (dropWhile isspace (rev (dropWhile isspace s)))"

definition slice_to :: "ustr \<Rightarrow> int \<Rightarrow> ustr" where
  \<comment> \<open>\<^verbatim>\<open>text[:m]\<close>: the first \<open>m\<close> characters, and for a negative \<open>m\<close> all but the last \<open>-m\<close>\<close>
  "slice_to text m =
     (if 0 \<le> m then take (nat m) text else take (nat (int (length text) + m)) text)"

fun join_space :: "ustr list \<Rightarrow> ustr" where
  \<comment> \<open>\<^verbatim>\<open>' '.join(parts)\<close>\<close>
  "join_space [] = []"
| "join_space [p] = p"
| "join_space (p # q # ps) = p @ [32] @ join_space (q # ps)"

subsection \<open>Floating point\<close>

text \<open>
  A Python \<^verbatim>\<open>float\<close> is an IEEE 754 binary64 number. A finite one is a rational, and every
  operation returns the exact result rounded to 53 significant bits, ties to even.
  \<open>fl\<close> is this rounding; it leaves the exponent range aside. Converting an \<^verbatim>\<open>int\<close> raises
  \<^verbatim>\<open>OverflowError\<close> when the rounded value reaches \<open>2 ^ 1024\<close>, that is when its exponent
  is 1024 or more: \<open>float_of_int\<close> has this
  branch, for \<^verbatim>\<open>max_length\<close>, which the caller chooses. The other conversions are of values
  of \<^verbatim>\<open>len\<close> and of indexes, which are below \<open>2 ^ 63\<close>, so that they and the scores computed
  from them stay far inside the range; they use \<open>float_of_nat\<close>.
\<close>

datatype error = OverflowError | TypeError | ValueError | LibraryError nat

type_synonym pyfloat = rat

function bitlen :: "int \<Rightarrow> int" where
  "bitlen k = (if k \<le> 0 then 0 else 1 + bitlen (k div 2))"
  by pat_completeness auto
termination
  by (relation "measure nat") auto

declare bitlen.simps [simp del]

definition pow2 :: "int \<Rightarrow> rat" where
  "pow2 e = (if 0 \<le> e then 2 ^ nat e else 1 / 2 ^ nat (- e))"

definition exponent :: "rat \<Rightarrow> int" where
  \<comment> \<open>for \<open>0 < x\<close>, the \<open>e\<close> with \<open>2 ^ e \<le> x < 2 ^ (e + 1)\<close>\<close>
  "exponent x =
     (if 1 \<le> x then bitlen \<lfloor>x\<rfloor> - 1
      else (let k = bitlen \<lfloor>1 / x\<rfloor> in if x = pow2 (1 - k) then 1 - k else - k))"

definition round_half_even :: "rat \<Rightarrow> int" where
  "round_half_even m =
     (let f = \<lfloor>m\<rfloor>; d = m - of_int f
      in if d < 1 / 2 then f else if 1 / 2 < d then f + 1 else if even f then f else f + 1)"

definition fl :: "rat \<Rightarrow> pyfloat" where
  "fl x =
     (if x = 0 then 0
      else (let e = exponent \<bar>x\<bar> - 52
            in sgn x * of_int (round_half_even (\<bar>x\<bar> / pow2 e)) * pow2 e))"

definition fmul :: "pyfloat \<Rightarrow> pyfloat \<Rightarrow> pyfloat" where
  "fmul x y = fl (x * y)"

definition fsub :: "pyfloat \<Rightarrow> pyfloat \<Rightarrow> pyfloat" where
  "fsub x y = fl (x - y)"

definition fdiv :: "pyfloat \<Rightarrow> pyfloat \<Rightarrow> pyfloat" where
  "fdiv x y = fl (x / y)"

definition float_of_nat :: "nat \<Rightarrow> pyfloat" where
  "float_of_nat n = fl (of_nat n)"

definition float_of_int :: "int \<Rightarrow> error + pyfloat" where
  "float_of_int k =
     (let x = fl (of_int k)
      in if x \<noteq> 0 \<and> 1024 \<le> exponent \<bar>x\<bar> then Inl OverflowError else Inr x)"

definition lit_0_1 :: pyfloat where
  \<comment> \<open>the literal \<^verbatim>\<open>0.1\<close>\<close>
  "lit_0_1 = fl (1 / 10)"

definition lit_0_8 :: pyfloat where
  \<comment> \<open>the literal \<^verbatim>\<open>0.8\<close>\<close>
  "lit_0_8 = fl (8 / 10)"

subsection \<open>The extractive summarizer\<close>

definition segment :: "ustr \<Rightarrow> ustr list" where
  \<comment> \<open>\<^verbatim>\<open>sentences = re.split(..., text)\<close>, then \<^verbatim>\<open>[s.strip() for s in sentences if s.strip()]\<close>\<close>
  "segment text = map strip (filter (\<lambda>s. strip s \<noteq> []) (re_split text))"

text \<open>
  The scoring loop, \<^verbatim>\<open>for i, sent in enumerate(sentences)\<close>: \<open>n\<close> is \<^verbatim>\<open>len(sentences)\<close> and
  \<open>i\<close> the running index. The loop runs only when \<^verbatim>\<open>sentences\<close> is not empty, so the
  division is by a positive number.
\<close>

fun score_from :: "nat \<Rightarrow> nat \<Rightarrow> ustr list \<Rightarrow> (pyfloat \<times> ustr \<times> nat) list" where
  "score_from n i [] = []"
| "score_from n i (sent # rest) =
     (fmul (float_of_nat (length sent))
        (fsub 1 (fdiv (fmul (float_of_nat i) lit_0_1) (float_of_nat n))), sent, i)
     # score_from n (Suc i) rest"

definition scored_sentences :: "ustr list \<Rightarrow> (pyfloat \<times> ustr \<times> nat) list" where
  "scored_sentences sentences = score_from (length sentences) 0 sentences"

definition sort_reverse :: "'a::linorder list \<Rightarrow> 'a list" where
  \<comment> \<open>\<^verbatim>\<open>list.sort(reverse=True)\<close>: the list is reversed, sorted stably, and reversed again.
      The tuples are compared as Python compares tuples, lexicographically.\<close>
  "sort_reverse xs = rev (sort_key (\<lambda>x. x) (rev xs))"

text \<open>
  The selection loop. \<open>parts\<close> is \<^verbatim>\<open>summary_parts\<close> and \<open>cur\<close> is \<^verbatim>\<open>current_length\<close>; the
  second statement of the body is the test that leaves the loop.
  \<^verbatim>\<open>max_length * 0.8\<close> converts \<^verbatim>\<open>max_length\<close> to a float at every iteration, which raises
  for an integer beyond the range; Python compares the integer \<^verbatim>\<open>current_length\<close> with the
  float exactly.
\<close>

fun select_step ::
  "int \<Rightarrow> pyfloat \<times> ustr \<times> nat \<Rightarrow> (nat \<times> ustr) list \<times> int \<Rightarrow> (nat \<times> ustr) list \<times> int"
where
  \<comment> \<open>the first statement of the loop body: the sentence is accepted when it still fits\<close>
  "select_step max_length (score, sent, original_idx) (parts, cur) =
     (let sent_with_delimiter = sent @ [KHAN]
      in if cur + int (length sent_with_delimiter) \<le> max_length
         then (parts @ [(original_idx, sent_with_delimiter)],
               cur + int (length sent_with_delimiter))
         else (parts, cur))"

fun select_loop ::
  "int \<Rightarrow> (pyfloat \<times> ustr \<times> nat) list \<Rightarrow> (nat \<times> ustr) list \<Rightarrow> int \<Rightarrow> error + (nat \<times> ustr) list"
where
  "select_loop max_length [] parts cur = Inr parts"
| "select_loop max_length (x # rest) parts cur =
     (case select_step max_length x (parts, cur) of
        (parts', cur') \<Rightarrow>
          (case float_of_int max_length of
             Inl e \<Rightarrow> Inl e
           | Inr m \<Rightarrow>
               if fmul m lit_0_8 \<le> of_int cur' then Inr parts'
               else select_loop max_length rest parts' cur'))"

definition extractive_summarize :: "ustr \<Rightarrow> int \<Rightarrow> error + ustr" where
  "extractive_summarize text max_length =
     (let sentences = segment text
      in if sentences = [] then Inr (slice_to text max_length)
         else case select_loop max_length (sort_reverse (scored_sentences sentences)) [] 0 of
                Inl e \<Rightarrow> Inl e
              | Inr summary_parts \<Rightarrow>
                  (let summary = join_space (map snd (sort_key fst summary_parts))
                   in Inr (if summary \<noteq> [] then summary else slice_to text max_length)))"

text \<open>
  The score as the specification writes it, \<^verbatim>\<open>length(content) * (1 - index * 0.1 / count)\<close>, in
  the arithmetic of the program.
\<close>

definition spec_score :: "ustr \<Rightarrow> nat \<Rightarrow> nat \<Rightarrow> pyfloat" where
  "spec_score content idx n =
     fmul (float_of_nat (length content))
       (fsub 1 (fdiv (fmul (float_of_nat idx) lit_0_1) (float_of_nat n)))"

definition total_length :: "(nat \<times> ustr) list \<Rightarrow> int" where
  \<comment> \<open>the sum of the lengths of the rendered units of \<open>parts\<close>\<close>
  "total_length parts = (\<Sum>p\<leftarrow>parts. int (length (snd p)))"

definition within_budget :: "int \<Rightarrow> (nat \<times> ustr) list \<times> int \<Rightarrow> bool" where
  \<comment> \<open>on a state \<^verbatim>\<open>(summary_parts, current_length)\<close> of the selection loop: the accumulated
      length is the length of the accepted units and does not exceed \<open>max_length\<close>\<close>
  "within_budget max_length st \<longleftrightarrow>
     snd st = total_length (fst st) \<and> snd st \<le> max_length"



definition some_fits :: "int \<Rightarrow> ustr list \<Rightarrow> bool" where
  \<comment> \<open>some sentence, with its delimiter, is no longer than \<open>max_length\<close>\<close>
  "some_fits max_length sentences \<longleftrightarrow> list_ex (\<lambda>s. int (length s) + 1 \<le> max_length) sentences"

subsection \<open>The facade\<close>

text \<open>
  The tokenizer and the model come from a library and are opaque: each call may return or
  raise. The tokenizer call stands for the call with its move to the device, the model for
  \<^verbatim>\<open>generate\<close> with the fixed beam parameters and the read of \<^verbatim>\<open>summary_ids[0]\<close>.
\<close>

type_synonym tokens = "nat list"

record tokenizer_handle =
  encode :: "ustr \<Rightarrow> error + tokens"
  decode :: "tokens \<Rightarrow> error + ustr"

record summarizer =
  model :: "(tokens \<Rightarrow> int \<Rightarrow> int \<Rightarrow> error + tokens) option"
  tokenizer :: "tokenizer_handle option"

definition neural_summarize :: "summarizer \<Rightarrow> ustr \<Rightarrow> int \<Rightarrow> int \<Rightarrow> error + ustr" where
  \<comment> \<open>the body of the \<^verbatim>\<open>try\<close>; calling a tokenizer that is \<^verbatim>\<open>None\<close> raises \<^verbatim>\<open>TypeError\<close>\<close>
  "neural_summarize s text max_length min_length =
     (case tokenizer s of
        None \<Rightarrow> Inl TypeError
      | Some tk \<Rightarrow>
          (case encode tk text of
             Inl e \<Rightarrow> Inl e
           | Inr inputs \<Rightarrow>
               (case model s of
                  None \<Rightarrow> Inl TypeError
                | Some generate \<Rightarrow>
                    (case generate inputs max_length min_length of
                       Inl e \<Rightarrow> Inl e
                     | Inr summary_ids \<Rightarrow> decode tk summary_ids))))"

definition summarize :: "summarizer \<Rightarrow> ustr \<Rightarrow> int \<Rightarrow> int \<Rightarrow> error + ustr" where
  "summarize s text max_length min_length =
     (if model s = None then extractive_summarize text max_length
      else case neural_summarize s text max_length min_length of
             Inr summary \<Rightarrow> Inr summary
           | Inl e \<Rightarrow> extractive_summarize text max_length)"

definition is_loaded :: "summarizer \<Rightarrow> bool" where
  "is_loaded s \<longleftrightarrow> model s \<noteq> None"

subsection \<open>The endpoint\<close>

text \<open>
  The body of a request is a JSON object. Its \<^verbatim>\<open>text\<close> is a string, or is missing. The
  handler passes \<^verbatim>\<open>max_length\<close> and \<^verbatim>\<open>min_length\<close> through \<^verbatim>\<open>int(...)\<close> before it looks at
  the text, and the builtin returns an integer or raises (\<^verbatim>\<open>ValueError\<close> for a string that
  is no number, \<^verbatim>\<open>TypeError\<close> for null, a list or an object): a field that is present holds
  this outcome for the value that was sent. An exception is caught by the handler, which
  answers with status 500. The handler returns the status with the body of the response; the
  model returns with them the calls of \<^verbatim>\<open>summarizer.summarize\<close> that the handler made, in
  order.
\<close>

record request =
  req_text :: "ustr option"
  req_max_length :: "(error + int) option"
  req_min_length :: "(error + int) option"

datatype response_body =
  ErrorBody ustr
| SummaryBody ustr nat nat
| InternalErrorBody error

definition no_text_message :: ustr where
  \<comment> \<open>the message of the first check, which ends with \<^verbatim>\<open>(No text provided)\<close>\<close>
  "no_text_message =
     [6018, 6098, 6040, 6070, 6035, 6050, 6031, 6098, 6032, 6036, 6033, 32, 40, 78, 111, 32,
      116, 101, 120, 116, 32, 112, 114, 111, 118, 105, 100, 101, 100, 41]"

definition too_short_message :: ustr where
  \<comment> \<open>the message of the second check, which ends with \<^verbatim>\<open>(Text too short)\<close>\<close>
  "too_short_message =
     [6050, 6031, 6098, 6032, 6036, 6033, 6017, 6098, 6043, 6072, 6038, 6081, 6016, 32, 40, 84,
      101, 120, 116, 32, 116, 111, 111, 32, 115, 104, 111, 114, 116, 41]"

definition request_text :: "request \<Rightarrow> ustr" where
  \<comment> \<open>\<^verbatim>\<open>data.get('text', '')\<close>\<close>
  "request_text data = (case req_text data of None \<Rightarrow> [] | Some t \<Rightarrow> t)"

definition int_field :: "int \<Rightarrow> (error + int) option \<Rightarrow> error + int" where
  \<comment> \<open>\<^verbatim>\<open>int(data.get(key, default))\<close>\<close>
  "int_field dflt field = (case field of None \<Rightarrow> Inr dflt | Some r \<Rightarrow> r)"

definition api_summarize ::
  "summarizer \<Rightarrow> request \<Rightarrow> (nat \<times> response_body) \<times> (ustr \<times> int \<times> int) list" where
  "api_summarize s data =
     (let text = request_text data
      in case int_field 150 (req_max_length data) of
           Inl e \<Rightarrow> ((500, InternalErrorBody e), [])
         | Inr max_length \<Rightarrow>
             (case int_field 50 (req_min_length data) of
                Inl e \<Rightarrow> ((500, InternalErrorBody e), [])
              | Inr min_length \<Rightarrow>
                  if text = [] then ((400, ErrorBody no_text_message), [])
                  else if length (strip text) < 10 then ((400, ErrorBody too_short_message), [])
                  else (case summarize s text max_length min_length of
                          Inr summary \<Rightarrow>
                            ((200, SummaryBody summary (length text) (length summary)),
                             [(text, max_length, min_length)])
                        | Inl e \<Rightarrow>
                            ((500, InternalErrorBody e), [(text, max_length, min_length)]))))"

section \<open>Properties\<close>

subsection \<open>Rounding\<close>

lemma pow2_powi: "pow2 e = 2 powi e"
  by (simp add: pow2_def power_int_def power_one_over inverse_eq_divide)

lemma pow2_pos: "0 < pow2 e"
  by (simp add: pow2_powi)

lemma pow2_add: "pow2 (a + b) = pow2 a * pow2 b"
  by (simp add: pow2_powi power_int_add)

lemma pow2_Suc: "pow2 (e + 1) = 2 * pow2 e"
  by (simp add: pow2_powi power_int_add)

lemma pow2_mono: "a \<le> b \<Longrightarrow> pow2 a \<le> pow2 b"
  by (simp add: pow2_powi power_int_increasing)

lemma pow2_nat: "0 \<le> e \<Longrightarrow> pow2 e = 2 ^ nat e"
  by (simp add: pow2_def)

lemma bitlen_bounds:
  "0 < k \<Longrightarrow> 1 \<le> bitlen k \<and> 2 ^ nat (bitlen k - 1) \<le> k \<and> k < 2 ^ nat (bitlen k)"
proof (induction k rule: bitlen.induct)
  case (1 k)
  show ?case
  proof (cases "k = 1")
    case True
    then show ?thesis by (simp add: bitlen.simps [of 1] bitlen.simps [of 0])
  next
    case False
    with "1.prems" have h: "0 < k div 2" by simp
    define b where "b = bitlen (k div 2)"
    from "1.IH" "1.prems" h have ih: "1 \<le> b" "2 ^ nat (b - 1) \<le> k div 2" "k div 2 < 2 ^ nat b"
      by (simp_all add: b_def)
    have bk: "bitlen k = 1 + b"
      using "1.prems" by (subst bitlen.simps) (simp add: b_def)
    have "nat b = Suc (nat (b - 1))"
      using ih(1) by simp
    then have e1: "(2::int) ^ nat b = 2 * 2 ^ nat (b - 1)"
      by simp
    have "nat (1 + b) = Suc (nat b)"
      using ih(1) by simp
    then have e2: "(2::int) ^ nat (1 + b) = 2 * 2 ^ nat b"
      by simp
    have "2 * (k div 2) \<le> k" by simp
    moreover have "k < 2 * (k div 2) + 2" by presburger
    ultimately show ?thesis
      using ih e1 e2 unfolding bk by simp
  qed
qed

lemma exponent_bounds:
  assumes "0 < x"
  shows "pow2 (exponent x) \<le> x \<and> x < pow2 (exponent x + 1)"
proof (cases "1 \<le> x")
  case True
  define k where "k = \<lfloor>x\<rfloor>"
  have kpos: "0 < k" using True by (simp add: k_def)
  note b = bitlen_bounds [OF kpos]
  have ex: "exponent x = bitlen k - 1"
    using True by (simp add: exponent_def k_def)
  have "rat_of_int (2 ^ nat (bitlen k - 1)) \<le> of_int k"
    using b by (simp only: of_int_le_iff)
  also have "\<dots> \<le> x" by (simp add: k_def)
  finally have lo: "pow2 (bitlen k - 1) \<le> x"
    using b by (simp add: pow2_nat)
  have "k + 1 \<le> 2 ^ nat (bitlen k)" using b by simp
  then have "rat_of_int (k + 1) \<le> of_int (2 ^ nat (bitlen k))"
    by (simp only: of_int_le_iff)
  moreover have "x < of_int (k + 1)" using floor_correct [of x] by (simp add: k_def)
  ultimately have hi: "x < pow2 (bitlen k)"
    using b by (simp add: pow2_nat)
  show ?thesis using lo hi by (simp add: ex)
next
  case False
  define y where "y = 1 / x"
  have ypos: "1 < y" using False assms by (simp add: y_def)
  have xy: "x = 1 / y" by (simp add: y_def)
  define k where "k = \<lfloor>y\<rfloor>"
  have kpos: "0 < k" using ypos by (simp add: k_def)
  note b = bitlen_bounds [OF kpos]
  define c where "c = bitlen k"
  have "rat_of_int (2 ^ nat (c - 1)) \<le> of_int k"
    using b by (simp only: of_int_le_iff c_def)
  also have "\<dots> \<le> y" by (simp add: k_def)
  finally have lo: "pow2 (c - 1) \<le> y"
    using b by (simp add: pow2_nat c_def)
  have "k + 1 \<le> 2 ^ nat c" using b by (simp add: c_def)
  then have "rat_of_int (k + 1) \<le> of_int (2 ^ nat c)"
    by (simp only: of_int_le_iff)
  moreover have "y < of_int (k + 1)" using floor_correct [of y] by (simp add: k_def)
  ultimately have hi: "y < pow2 c"
    using b by (simp add: pow2_nat c_def)
  have inv: "pow2 (- e) = 1 / pow2 e" for e
    by (simp add: pow2_powi power_int_minus inverse_eq_divide)
  have x_le: "x \<le> pow2 (1 - c)"
  proof -
    have "1 / y \<le> 1 / pow2 (c - 1)"
      using lo pow2_pos [of "c - 1"] by (simp add: frac_le)
    then show ?thesis using inv [of "c - 1"] by (simp add: xy)
  qed
  have x_gt: "pow2 (- c) < x"
  proof -
    have "1 / pow2 c < 1 / y"
      using hi ypos by (simp add: frac_less2)
    then show ?thesis using inv [of c] by (simp add: xy)
  qed
  have ex: "exponent x = (if x = pow2 (1 - c) then 1 - c else - c)"
    using False by (simp add: exponent_def Let_def c_def k_def y_def)
  show ?thesis
  proof (cases "x = pow2 (1 - c)")
    case True
    have "pow2 (1 - c) < 2 * pow2 (1 - c)"
      using pow2_pos [of "1 - c"] by simp
    then have "pow2 (1 - c) < pow2 (1 - c + 1)"
      by (simp only: pow2_Suc)
    then show ?thesis using True ex by simp
  next
    case False
    then have "x < pow2 (- c + 1)" using x_le by simp
    then show ?thesis using False ex x_gt by simp
  qed
qed

lemma exponent_ge_iff:
  assumes "0 < y"
  shows "n \<le> exponent y \<longleftrightarrow> pow2 n \<le> y"
proof
  assume "n \<le> exponent y"
  then have "pow2 n \<le> pow2 (exponent y)" by (rule pow2_mono)
  then show "pow2 n \<le> y" using exponent_bounds [OF assms] by simp
next
  assume h: "pow2 n \<le> y"
  show "n \<le> exponent y"
  proof (rule ccontr)
    assume "\<not> n \<le> exponent y"
    then have "exponent y + 1 \<le> n" by simp
    then have "pow2 (exponent y + 1) \<le> pow2 n" by (rule pow2_mono)
    then show False using exponent_bounds [OF assms] h by simp
  qed
qed

lemma round_half_even_bounds:
  "\<lfloor>m\<rfloor> \<le> round_half_even m \<and> round_half_even m \<le> \<lfloor>m\<rfloor> + 1"
  by (simp add: round_half_even_def Let_def)

lemma fl_range:
  assumes "0 < x"
  shows "pow2 (exponent x) \<le> fl x \<and> fl x \<le> pow2 (exponent x + 1)"
proof -
  define e where "e = exponent x - 52"
  define m where "m = x / pow2 e"
  define r where "r = round_half_even m"
  have ex: "exponent x = e + 52" by (simp add: e_def)
  have p52: "pow2 52 = rat_of_int (2 ^ 52)" and p53: "pow2 53 = rat_of_int (2 ^ 53)"
    by (simp_all add: pow2_def)
  from exponent_bounds [OF assms]
  have "pow2 52 * pow2 e \<le> x" and "x < pow2 53 * pow2 e"
    by (simp_all add: ex pow2_add mult.commute)
  then have m_lo: "pow2 52 \<le> m" and m_hi: "m < pow2 53"
    using pow2_pos [of e] by (simp_all add: m_def pos_le_divide_eq pos_divide_less_eq)
  define fm where "fm = \<lfloor>m\<rfloor>"
  have "2 ^ 52 \<le> fm"
    using m_lo unfolding p52 fm_def by (simp only: le_floor_iff)
  moreover have "fm < 2 ^ 53"
    using m_hi unfolding p53 fm_def by (simp only: floor_less_iff)
  moreover have "fm \<le> r \<and> r \<le> fm + 1"
    using round_half_even_bounds [of m] by (simp add: r_def fm_def)
  ultimately have "2 ^ 52 \<le> r" and "r \<le> 2 ^ 53"
    by simp_all
  then have "rat_of_int (2 ^ 52) \<le> of_int r" and "rat_of_int r \<le> of_int (2 ^ 53)"
    by (simp_all only: of_int_le_iff)
  then have "pow2 52 * pow2 e \<le> of_int r * pow2 e" and "of_int r * pow2 e \<le> pow2 53 * pow2 e"
    using pow2_pos [of e] unfolding p52 p53 by (simp_all only: mult_le_cancel_right) simp_all
  moreover have "fl x = of_int r * pow2 e"
    using assms by (simp add: fl_def Let_def r_def m_def e_def)
  moreover have "pow2 (exponent x + 1) = pow2 53 * pow2 e"
    unfolding ex by (simp flip: pow2_add add: add.commute)
  moreover have "pow2 (exponent x) = pow2 52 * pow2 e"
    unfolding ex by (simp flip: pow2_add add: add.commute)
  ultimately show ?thesis by simp
qed

lemma fl_pos: "0 < x \<Longrightarrow> 0 < fl x"
  using fl_range [of x] pow2_pos [of "exponent x"] by simp

lemma fl_le_double: "0 < x \<Longrightarrow> fl x \<le> 2 * x"
  using fl_range [of x] exponent_bounds [of x] by (simp add: pow2_Suc)

lemma fl_abs: "\<bar>fl x\<bar> = fl \<bar>x\<bar>"
proof (cases "x = 0")
  case True
  then show ?thesis by (simp add: fl_def)
next
  case False
  define t where "t = rat_of_int (round_half_even (\<bar>x\<bar> / pow2 (exponent \<bar>x\<bar> - 52))) * pow2 (exponent \<bar>x\<bar> - 52)"
  have 1: "fl \<bar>x\<bar> = t"
    using False by (simp add: fl_def Let_def t_def)
  have 2: "fl x = sgn x * t"
    using False by (simp add: fl_def Let_def t_def)
  have "0 < t"
    using fl_pos [of "\<bar>x\<bar>"] False by (simp add: 1)
  then show ?thesis
    using False by (simp add: 1 2 abs_mult)
qed

lemma float_of_int_small:
  assumes "\<bar>k\<bar> < 2 ^ 1023"
  shows "float_of_int k = Inr (fl (of_int k))"
proof (cases "k = 0")
  case True
  then show ?thesis by (simp add: float_of_int_def fl_def)
next
  case False
  define a :: rat where "a = \<bar>of_int k\<bar>"
  have apos: "0 < a" using False by (simp add: a_def)
  have "a = rat_of_int \<bar>k\<bar>" by (simp add: a_def)
  also have "\<dots> < of_int (2 ^ 1023)" using assms by (simp only: of_int_less_iff)
  finally have "2 * a < 2 * 2 ^ 1023" by simp
  then have "fl a < pow2 1024"
    using fl_le_double [OF apos] by (simp add: pow2_def)
  then have "\<not> 1024 \<le> exponent (fl a)"
    using exponent_ge_iff [OF fl_pos [OF apos], of 1024] by simp
  then show ?thesis
    by (simp add: float_of_int_def Let_def fl_abs a_def)
qed

lemma float_of_int_large:
  assumes "2 ^ 1024 \<le> \<bar>k\<bar>"
  shows "float_of_int k = Inl OverflowError"
proof -
  define a :: rat where "a = \<bar>of_int k\<bar>"
  have "rat_of_int (2 ^ 1024) \<le> of_int \<bar>k\<bar>" using assms by (simp only: of_int_le_iff)
  then have big: "pow2 1024 \<le> a" by (simp add: a_def pow2_def)
  then have apos: "0 < a" using pow2_pos [of 1024] by simp
  have "1024 \<le> exponent a" using big exponent_ge_iff [OF apos] by simp
  then have "pow2 1024 \<le> pow2 (exponent a)" by (rule pow2_mono)
  then have "pow2 1024 \<le> fl a" using fl_range [OF apos] by simp
  then have "1024 \<le> exponent (fl a)"
    using exponent_ge_iff [OF fl_pos [OF apos]] by simp
  moreover have "fl (of_int k) \<noteq> 0"
    using fl_pos [OF apos] fl_abs [of "of_int k"] by (simp add: a_def)
  ultimately show ?thesis
    by (simp add: float_of_int_def Let_def fl_abs a_def)
qed

lemma threshold_pos:
  assumes "0 < m" and "float_of_int m = Inr f"
  shows "0 < fmul f lit_0_8"
proof -
  have "f = fl (of_int m)"
    using assms(2) by (simp add: float_of_int_def Let_def split: if_splits)
  then have "0 < f" using assms(1) by (simp add: fl_pos)
  moreover have "0 < lit_0_8" by (simp add: lit_0_8_def fl_pos)
  ultimately show ?thesis by (simp add: fmul_def fl_pos)
qed

subsection \<open>Evaluating the model on concrete inputs\<close>

lemma bitlen_0: "bitlen 0 = 0"
  by (simp add: bitlen.simps)

lemma bitlen_1: "bitlen 1 = 1"
  by (simp add: bitlen.simps [of 1] bitlen.simps [of 0])

lemma bitlen_numeral: "bitlen (numeral n) = 1 + bitlen (numeral n div 2)"
  by (subst bitlen.simps) simp

lemma floor_rat_numeral_div: "\<lfloor>numeral a / numeral b :: rat\<rfloor> = numeral a div numeral b"
  by (metis floor_divide_of_int_eq of_int_numeral)

lemma floor_rat_one_div: "\<lfloor>1 / numeral b :: rat\<rfloor> = 1 div numeral b"
  by (metis floor_divide_of_int_eq of_int_numeral of_int_1)

lemmas float_eval = fl_def exponent_def round_half_even_def pow2_def Let_def bitlen_0 bitlen_1
  bitlen_numeral fmul_def fsub_def fdiv_def float_of_nat_def float_of_int_def lit_0_1_def
  lit_0_8_def floor_rat_numeral_div floor_rat_one_div

lemmas text_eval = segment_def re_split_def strip_def isspace_def is_delimiter_def KHAN_def
  BARIYOOSAN_def has_delimiter_def slice_to_def

lemmas summarizer_eval = extractive_summarize_def scored_sentences_def sort_reverse_def

subsection \<open>The length of the summary\<close>

text \<open>
  C1. The claim: whenever the segmentation yields a sentence, the extractive summarizer
  returns a string of at most \<open>maxLength\<close> characters, the truncation of the raw text being
  the only branch that may reach the bound otherwise. The budget of the selection loop
  counts each sentence with its delimiter and leaves out the space that the join puts
  between two parts: for the text \<^verbatim>\<open>aaaa\<close>, delimiter, \<^verbatim>\<open>bbbb\<close>, delimiter and \<open>maxLength = 10\<close>
  both sentences are accepted (5 + 5 characters) and the summary returned by the selection
  branch has 11 characters.
\<close>

theorem extractive_summarize_exceeds_max_length:
  "extractive_summarize [97, 97, 97, 97, 6100, 98, 98, 98, 98, 6100] 10
     = Inr [97, 97, 97, 97, 6100, 32, 98, 98, 98, 98, 6100]
   \<and> segment [97, 97, 97, 97, 6100, 98, 98, 98, 98, 6100] = [[97, 97, 97, 97], [98, 98, 98, 98]]
   \<and> int (length [97, 97, 97, 97, 6100, 32, 98, 98, 98, 98, 6100 :: nat]) = 11"
  by (simp add: summarizer_eval text_eval float_eval)

subsection \<open>Segmentation\<close>

lemma re_split_from_no_delimiter:
  "\<not> list_ex is_delimiter cs \<Longrightarrow> re_split_from cur cs = [rev cur @ cs]"
  by (induction cs arbitrary: cur) simp_all

lemma re_split_no_delimiter: "\<not> has_delimiter text \<Longrightarrow> re_split text = [text]"
  by (simp add: re_split_def has_delimiter_def re_split_from_no_delimiter)

lemma segment_nth:
  assumes "i < length (segment text)"
  shows "segment text ! i \<noteq> []
    \<and> (\<exists>fragment. fragment \<in> set (re_split text) \<and> segment text ! i = strip fragment)"
proof -
  have "segment text ! i \<in> set (segment text)"
    using assms by simp
  then show ?thesis
    by (auto simp: segment_def)
qed

text \<open>
  C3. The claim: a text with neither delimiter segments into no unit at all, so that the
  summarizer returns the first \<open>maxLength\<close> characters of the raw text. The split of a text
  without delimiter is the text itself, one fragment, which survives the filter unless it is
  empty or all whitespace: the text \<^verbatim>\<open>hi\<close> gives the unit \<^verbatim>\<open>hi\<close>, and the summary is
  \<^verbatim>\<open>hi\<close> followed by the delimiter.
\<close>

theorem no_delimiter_counterexample:
  "\<not> has_delimiter [104, 105]
   \<and> segment [104, 105] \<noteq> []
   \<and> extractive_summarize [104, 105] 10 \<noteq> Inr (slice_to [104, 105] 10)"
  by (simp add: summarizer_eval text_eval float_eval)

text \<open>
  C3, as amended: a text with neither delimiter segments into the single unit
  \<open>strip text\<close> when it has a character that is not whitespace, and into no unit when it has
  none; in the latter case the summarizer returns \<^verbatim>\<open>text[:maxLength]\<close>, which for
  \<open>0 \<le> maxLength\<close> is the first \<open>maxLength\<close> characters.
\<close>

theorem segment_without_delimiter:
  assumes "\<not> has_delimiter text"
  shows "segment text = (if strip text = [] then [] else [strip text])
    \<and> (strip text = [] \<longrightarrow>
          extractive_summarize text mx = Inr (slice_to text mx)
          \<and> (0 \<le> mx \<longrightarrow> extractive_summarize text mx = Inr (take (nat mx) text)))"
  using assms
  by (simp add: segment_def re_split_no_delimiter extractive_summarize_def slice_to_def)

theorem segment_without_delimiter_witness:
  "\<not> has_delimiter [32, 32, 32] \<and> strip [32, 32, 32] = [] \<and> (0::int) \<le> 2
   \<and> segment [32, 32, 32] = []
   \<and> extractive_summarize [32, 32, 32] 2 = Inr [32, 32]"
  using segment_without_delimiter [of "[32, 32, 32]" 2]
  by (simp add: text_eval)

subsection \<open>Scoring\<close>

lemma length_score_from: "length (score_from n i ss) = length ss"
  by (induction ss arbitrary: i) simp_all

lemma score_from_nth:
  "k < length ss \<Longrightarrow> score_from n i ss ! k = (spec_score (ss ! k) (i + k) n, ss ! k, i + k)"
proof (induction ss arbitrary: i k)
  case Nil
  then show ?case by simp
next
  case (Cons s ss)
  show ?case
  proof (cases k)
    case 0
    then show ?thesis by (simp add: spec_score_def)
  next
    case (Suc j)
    with Cons.prems have "j < length ss" by simp
    from Cons.IH [OF this, of "Suc i"] show ?thesis by (simp add: Suc)
  qed
qed

lemma map_index_score_from: "map (\<lambda>t. snd (snd t)) (score_from n i ss) = [i..<i + length ss]"
proof (induction ss arbitrary: i)
  case Nil
  then show ?case by simp
next
  case (Cons s ss)
  then show ?case by (simp add: upt_rec)
qed

lemma distinct_index_scored: "distinct (map (\<lambda>t. snd (snd t)) (scored_sentences ss))"
  by (simp add: scored_sentences_def map_index_score_from)

lemma distinct_scored: "distinct (scored_sentences ss)"
  using distinct_index_scored [of ss] by (simp add: distinct_map)

lemma scored_member:
  assumes "t \<in> set (scored_sentences ss)"
  shows "snd (snd t) < length ss \<and> fst (snd t) = ss ! snd (snd t)
    \<and> fst t = spec_score (fst (snd t)) (snd (snd t)) (length ss)"
proof -
  from assms obtain k where k: "k < length ss" and t: "t = scored_sentences ss ! k"
    by (auto simp: in_set_conv_nth scored_sentences_def length_score_from)
  show ?thesis
    using score_from_nth [OF k, of "length ss" 0] k by (simp add: t scored_sentences_def)
qed

text \<open>
  C4. The unit at position \<open>i\<close> of the filtered sequence (the fragments whose trimmed form
  is not empty, each trimmed) gets the score \<open>length(content) * (1 - i * 0.1 / n)\<close>, in the
  floating-point arithmetic of the program, where \<open>n\<close> is the number of units of the
  filtered sequence. The scored list has one entry per unit, in the order of the units, and
  the entry carries the unit and its index.
\<close>

theorem score_of_unit:
  assumes "i < length (segment text)"
  shows "length (scored_sentences (segment text)) = length (segment text)
    \<and> scored_sentences (segment text) ! i
        = (spec_score (segment text ! i) i (length (segment text)), segment text ! i, i)
    \<and> segment text ! i \<noteq> []
    \<and> (\<exists>fragment. fragment \<in> set (re_split text) \<and> segment text ! i = strip fragment)"
  using assms score_from_nth [OF assms, of "length (segment text)" 0] segment_nth [OF assms]
  by (simp add: scored_sentences_def length_score_from)

theorem score_of_unit_witness:
  "(1::nat) < length (segment [97, 97, 97, 97, 6100, 32, 6100, 98, 98, 98, 98, 6100])
   \<and> segment [97, 97, 97, 97, 6100, 32, 6100, 98, 98, 98, 98, 6100]
       = [[97, 97, 97, 97], [98, 98, 98, 98]]
   \<and> scored_sentences (segment [97, 97, 97, 97, 6100, 32, 6100, 98, 98, 98, 98, 6100]) ! 1
       = (4278419646001971 / 1125899906842624, [98, 98, 98, 98], 1)
   \<and> spec_score [98, 98, 98, 98] 1 2 = 4278419646001971 / 1125899906842624"
  using score_of_unit [of 1 "[97, 97, 97, 97, 6100, 32, 6100, 98, 98, 98, 98, 6100]"]
  by (simp add: spec_score_def text_eval float_eval)

subsection \<open>Sorting by score\<close>

lemma mset_sort_reverse: "mset (sort_reverse xs) = mset xs"
  by (simp add: sort_reverse_def)

lemma set_sort_reverse: "set (sort_reverse xs) = set xs"
  by (simp add: sort_reverse_def)

lemma distinct_index_sorted:
  "distinct (map (\<lambda>t. snd (snd t)) (sort_reverse (scored_sentences ss)))"
proof -
  have "mset (map (\<lambda>t. snd (snd t)) (sort_reverse (scored_sentences ss)))
      = mset (map (\<lambda>t. snd (snd t)) (scored_sentences ss))"
    by (simp add: mset_sort_reverse)
  then show ?thesis
    using distinct_index_scored [of ss] mset_eq_imp_distinct_iff by blast
qed

lemma sort_reverse_descending:
  assumes "distinct xs"
  shows "sorted_wrt (\<lambda>a b. b < a) (sort_reverse xs)"
proof -
  have "sorted (sort_key (\<lambda>x. x) (rev xs))"
    using sorted_sort_key [of "\<lambda>x. x" "rev xs"] by simp
  moreover have "distinct (sort_key (\<lambda>x. x) (rev xs))"
    using assms by simp
  ultimately have "sorted_wrt (<) (sort_key (\<lambda>x. x) (rev xs))"
    by (simp add: strict_sorted_iff)
  then show ?thesis
    by (simp add: sort_reverse_def sorted_wrt_rev)
qed


text \<open>
  C6. The claim: two units with equal scores keep their creation order in the sorted list,
  the one with the smaller index first. The list that is sorted holds the tuples
  \<^verbatim>\<open>(score, sent, i)\<close> and no key is given, so Python compares whole tuples: equal scores
  are separated by the sentences, and \<^verbatim>\<open>reverse=True\<close> puts the greater sentence first. With
  a first sentence of 19 letters \<^verbatim>\<open>a\<close> and a second of 20 letters \<^verbatim>\<open>b\<close> both scores are
  \<open>19.0\<close>, and the second unit comes first.
\<close>

theorem equal_scores_counterexample:
  "sort_reverse (scored_sentences (segment
      [97, 97, 97, 97, 97, 97, 97, 97, 97, 97, 97, 97, 97, 97, 97, 97, 97, 97, 97, 6100,
       98, 98, 98, 98, 98, 98, 98, 98, 98, 98, 98, 98, 98, 98, 98, 98, 98, 98, 98, 98, 6100]))
   = [(19, [98, 98, 98, 98, 98, 98, 98, 98, 98, 98, 98, 98, 98, 98, 98, 98, 98, 98, 98, 98], 1),
      (19, [97, 97, 97, 97, 97, 97, 97, 97, 97, 97, 97, 97, 97, 97, 97, 97, 97, 97, 97], 0)]"
  by (simp add: summarizer_eval text_eval float_eval)

text \<open>
  C6, as amended: the sorted list is strictly descending in the lexicographic order of the
  tuples (score, content, index), and it is a rearrangement of the scored units. Of two units
  with equal scores the one with the greater content, in code point order, comes first, and
  only for equal contents the one with the greater index.
\<close>

theorem sort_compares_whole_tuples:
  "sorted_wrt (\<lambda>(s1, c1, i1) (s2, c2, i2). s2 < s1 \<or> s2 = s1 \<and> (c2 < c1 \<or> c2 = c1 \<and> i2 < i1))
      (sort_reverse (scored_sentences sentences))
   \<and> mset (sort_reverse (scored_sentences sentences)) = mset (scored_sentences sentences)"
proof -
  have "sorted_wrt (\<lambda>a b. b < a) (sort_reverse (scored_sentences sentences))"
    by (rule sort_reverse_descending) (rule distinct_scored)
  then have "sorted_wrt
      (\<lambda>(s1, c1, i1) (s2, c2, i2). s2 < s1 \<or> s2 = s1 \<and> (c2 < c1 \<or> c2 = c1 \<and> i2 < i1))
      (sort_reverse (scored_sentences sentences))"
    by (rule sorted_wrt_mono_rel [rotated]) auto
  then show ?thesis by (simp add: mset_sort_reverse)
qed

subsection \<open>The selection loop\<close>

lemma select_loop_total:
  assumes "float_of_int mx = Inr f"
  shows "\<exists>parts. select_loop mx xs ps cur = Inr parts"
  using assms
proof (induction xs arbitrary: ps cur)
  case Nil
  then show ?case by simp
next
  case (Cons x xs)
  obtain ps' cur' where st: "select_step mx x (ps, cur) = (ps', cur')"
    by (cases "select_step mx x (ps, cur)")
  show ?case
    using Cons.IH [OF Cons.prems, of ps' cur'] Cons.prems by (simp add: st)
qed

lemma extractive_summarize_total:
  assumes "\<bar>mx\<bar> < 2 ^ 1023"
  shows "\<exists>s. extractive_summarize text mx = Inr s"
proof -
  obtain parts where
    "select_loop mx (sort_reverse (scored_sentences (segment text))) [] 0 = Inr parts"
    using select_loop_total [OF float_of_int_small [OF assms]] by blast
  then show ?thesis
    by (simp add: extractive_summarize_def Let_def)
qed

text \<open>What one iteration does to the state.\<close>

lemma select_step_cases:
  assumes "select_step mx x (ps, cur) = (ps', cur')"
  shows "(ps' = ps \<and> cur' = cur \<and> \<not> cur + (int (length (fst (snd x))) + 1) \<le> mx)
    \<or> (ps' = ps @ [(snd (snd x), fst (snd x) @ [KHAN])]
        \<and> cur' = cur + (int (length (fst (snd x))) + 1) \<and> cur' \<le> mx)"
  using assms by (cases x) (auto simp: Let_def split: if_splits)

lemma within_budget_step:
  assumes "within_budget mx s"
  shows "within_budget mx (select_step mx x s)"
proof -
  obtain ps cur where s: "s = (ps, cur)" by (cases s)
  obtain ps' cur' where st: "select_step mx x (ps, cur) = (ps', cur')"
    by (cases "select_step mx x (ps, cur)")
  have a: "cur = total_length ps" "cur \<le> mx"
    using assms by (auto simp: s within_budget_def)
  have "cur' = total_length ps' \<and> cur' \<le> mx"
    using select_step_cases [OF st] a by (auto simp: total_length_def)
  then show ?thesis by (auto simp: s st within_budget_def)
qed

lemma select_loop_within_budget:
  assumes "within_budget mx (ps, cur)" and "select_loop mx xs ps cur = Inr parts"
  shows "within_budget mx (parts, total_length parts)"
  using assms
proof (induction xs arbitrary: ps cur)
  case Nil
  then show ?case by (auto simp: within_budget_def)
next
  case (Cons x xs)
  obtain ps' cur' where st: "select_step mx x (ps, cur) = (ps', cur')"
    by (cases "select_step mx x (ps, cur)")
  have inv: "within_budget mx (ps', cur')"
    using within_budget_step [OF Cons.prems(1), of x] by (simp add: st)
  from Cons.prems(2) obtain m where m: "float_of_int mx = Inr m"
    by (cases "float_of_int mx") (simp_all add: st)
  show ?case
  proof (cases "fmul m lit_0_8 \<le> of_int cur'")
    case True
    with Cons.prems(2) have "parts = ps'" by (simp add: st m)
    with inv show ?thesis by (auto simp: within_budget_def)
  next
    case False
    with Cons.prems(2) have "select_loop mx xs ps' cur' = Inr parts" by (simp add: st m)
    from Cons.IH [OF inv this] show ?thesis .
  qed
qed

text \<open>
  The accepted parts are renderings of entries of the list, each index with its sentence and
  the delimiter, and no entry is taken twice.
\<close>

lemma select_loop_parts:
  assumes "select_loop mx xs ps cur = Inr parts"
  shows "\<exists>sel. parts = ps @ map (\<lambda>t. (snd (snd t), fst (snd t) @ [KHAN])) sel
    \<and> set sel \<subseteq> set xs
    \<and> (distinct (map (\<lambda>t. snd (snd t)) xs) \<longrightarrow> distinct (map (\<lambda>t. snd (snd t)) sel))"
  using assms
proof (induction xs arbitrary: ps cur)
  case Nil
  then show ?case by (intro exI [of _ "[]"]) simp
next
  case (Cons x xs)
  obtain ps' cur' where st: "select_step mx x (ps, cur) = (ps', cur')"
    by (cases "select_step mx x (ps, cur)")
  from Cons.prems obtain m where m: "float_of_int mx = Inr m"
    by (cases "float_of_int mx") (simp_all add: st)
  have rest: "\<exists>sel. parts = ps' @ map (\<lambda>t. (snd (snd t), fst (snd t) @ [KHAN])) sel
    \<and> set sel \<subseteq> set xs
    \<and> (distinct (map (\<lambda>t. snd (snd t)) xs) \<longrightarrow> distinct (map (\<lambda>t. snd (snd t)) sel))"
  proof (cases "fmul m lit_0_8 \<le> of_int cur'")
    case True
    with Cons.prems have "parts = ps'" by (simp add: st m)
    then show ?thesis by (intro exI [of _ "[]"]) simp
  next
    case False
    with Cons.prems have "select_loop mx xs ps' cur' = Inr parts" by (simp add: st m)
    from Cons.IH [OF this] show ?thesis .
  qed
  then obtain sel where sel: "parts = ps' @ map (\<lambda>t. (snd (snd t), fst (snd t) @ [KHAN])) sel"
    "set sel \<subseteq> set xs"
    "distinct (map (\<lambda>t. snd (snd t)) xs) \<longrightarrow> distinct (map (\<lambda>t. snd (snd t)) sel)"
    by blast
  from select_step_cases [OF st] show ?case
  proof
    assume "ps' = ps \<and> cur' = cur \<and> \<not> cur + (int (length (fst (snd x))) + 1) \<le> mx"
    with sel show ?thesis by (intro exI [of _ sel]) auto
  next
    assume "ps' = ps @ [(snd (snd x), fst (snd x) @ [KHAN])]
        \<and> cur' = cur + (int (length (fst (snd x))) + 1) \<and> cur' \<le> mx"
    with sel show ?thesis by (intro exI [of _ "x # sel"]) auto
  qed
qed

lemma join_space_nonempty: "ps \<noteq> [] \<Longrightarrow> hd ps \<noteq> [] \<Longrightarrow> join_space ps \<noteq> []"
  by (induction ps rule: join_space.induct) simp_all

lemma length_join_space:
  "ps \<noteq> [] \<Longrightarrow> int (length (join_space ps)) = (\<Sum>p\<leftarrow>ps. int (length p)) + int (length ps) - 1"
  by (induction ps rule: join_space.induct) simp_all

lemma map_sentence_score_from: "map (\<lambda>t. fst (snd t)) (score_from n i ss) = ss"
  by (induction ss arbitrary: i) simp_all

lemma sentences_of_sorted:
  "(\<lambda>t. fst (snd t)) ` set (sort_reverse (scored_sentences ss)) = set ss"
proof -
  have "(\<lambda>t. fst (snd t)) ` set (scored_sentences ss) = set (map (\<lambda>t. fst (snd t)) (scored_sentences ss))"
    by simp
  then show ?thesis
    by (simp only: set_sort_reverse scored_sentences_def map_sentence_score_from)
qed

lemma selection_structure:
  assumes "select_loop mx (sort_reverse (scored_sentences (segment text))) [] 0 = Inr parts"
  shows "distinct (map fst parts)
    \<and> (\<forall>p\<in>set parts. fst p < length (segment text) \<and> snd p = segment text ! fst p @ [KHAN])"
proof -
  from select_loop_parts [OF assms] distinct_index_sorted [of "segment text"]
  obtain sel where parts: "parts = map (\<lambda>t. (snd (snd t), fst (snd t) @ [KHAN])) sel"
    and sub: "set sel \<subseteq> set (scored_sentences (segment text))"
    and dis: "distinct (map (\<lambda>t. snd (snd t)) sel)"
    by (auto simp: set_sort_reverse)
  have "map fst parts = map (\<lambda>t. snd (snd t)) sel"
    by (simp add: parts)
  moreover have "fst p < length (segment text) \<and> snd p = segment text ! fst p @ [KHAN]"
    if "p \<in> set parts" for p
  proof -
    from that obtain t where t: "t \<in> set sel" and p: "p = (snd (snd t), fst (snd t) @ [KHAN])"
      by (auto simp: parts)
    from t sub have "t \<in> set (scored_sentences (segment text))" by blast
    from scored_member [OF this] show ?thesis by (simp add: p)
  qed
  ultimately show ?thesis using dis by simp
qed

lemma extractive_selection:
  assumes run: "select_loop mx (sort_reverse (scored_sentences (segment text))) [] 0 = Inr parts"
    and ne: "parts \<noteq> []"
  shows "sorted_wrt (<) (map fst (sort_key fst parts))
    \<and> set (map fst (sort_key fst parts)) \<subseteq> {..<length (segment text)}
    \<and> map snd (sort_key fst parts)
        = map (\<lambda>i. segment text ! i @ [KHAN]) (map fst (sort_key fst parts))
    \<and> extractive_summarize text mx = Inr (join_space (map snd (sort_key fst parts)))
    \<and> join_space (map snd (sort_key fst parts)) \<noteq> []"
proof -
  note str = selection_structure [OF run]
  have "mset (map fst (sort_key fst parts)) = mset (map fst parts)"
    by simp
  then have "distinct (map fst (sort_key fst parts))"
    using str mset_eq_imp_distinct_iff by blast
  moreover have "sorted (map fst (sort_key fst parts))"
    by (rule sorted_sort_key)
  ultimately have 1: "sorted_wrt (<) (map fst (sort_key fst parts))"
    by (simp add: strict_sorted_iff)
  have 2: "set (map fst (sort_key fst parts)) \<subseteq> {..<length (segment text)}"
    using str by auto
  have 3: "map snd (sort_key fst parts)
      = map (\<lambda>i. segment text ! i @ [KHAN]) (map fst (sort_key fst parts))"
    using str by (simp add: map_eq_conv)
  have "sort_key fst parts \<noteq> []"
    using ne by (metis length_sort length_0_conv)
  then have "map snd (sort_key fst parts) \<noteq> []" and "hd (map snd (sort_key fst parts)) \<noteq> []"
    by (simp_all add: 3 hd_map)
  then have 5: "join_space (map snd (sort_key fst parts)) \<noteq> []"
    by (rule join_space_nonempty)
  have "segment text \<noteq> []"
  proof
    assume "segment text = []"
    with run have "parts = []" by (simp add: scored_sentences_def sort_reverse_def)
    with ne show False by simp
  qed
  then have 4: "extractive_summarize text mx = Inr (join_space (map snd (sort_key fst parts)))"
    using run 5 by (simp add: extractive_summarize_def Let_def)
  show ?thesis using 1 2 3 4 5 by blast
qed

lemma select_loop_rejects:
  assumes "\<forall>t\<in>set xs. \<not> int (length (fst (snd t))) + 1 \<le> mx" and "0 \<le> cur"
    and "select_loop mx xs ps cur = Inr parts"
  shows "parts = ps"
  using assms
proof (induction xs arbitrary: ps cur)
  case Nil
  then show ?case by simp
next
  case (Cons x xs)
  obtain ps' cur' where st: "select_step mx x (ps, cur) = (ps', cur')"
    by (cases "select_step mx x (ps, cur)")
  from Cons.prems(3) obtain m where m: "float_of_int mx = Inr m"
    by (cases "float_of_int mx") (simp_all add: st)
  from select_step_cases [OF st] Cons.prems(1,2) have same: "ps' = ps" "cur' = cur"
    by auto
  show ?case
  proof (cases "fmul m lit_0_8 \<le> of_int cur'")
    case True
    with Cons.prems(3) show ?thesis by (simp add: st m same)
  next
    case False
    with Cons.prems(3) have "select_loop mx xs ps cur = Inr parts" by (simp add: st m same)
    with Cons.IH [of cur ps] Cons.prems(1,2) show ?thesis by simp
  qed
qed

lemma select_loop_accepts:
  assumes "0 < mx" and "\<exists>t\<in>set xs. int (length (fst (snd t))) + 1 \<le> mx"
    and "select_loop mx xs [] 0 = Inr parts"
  shows "parts \<noteq> []"
  using assms(2,3)
proof (induction xs)
  case Nil
  then show ?case by simp
next
  case (Cons x xs)
  obtain ps' cur' where st: "select_step mx x ([], 0) = (ps', cur')"
    by (cases "select_step mx x ([], 0)")
  from Cons.prems(2) obtain m where m: "float_of_int mx = Inr m"
    by (cases "float_of_int mx") (simp_all add: st)
  from select_step_cases [OF st] show ?case
  proof
    assume rej: "ps' = [] \<and> cur' = 0 \<and> \<not> 0 + (int (length (fst (snd x))) + 1) \<le> mx"
    have "\<not> fmul m lit_0_8 \<le> of_int 0"
      using threshold_pos [OF assms(1) m] by simp
    with Cons.prems(2) rej have "select_loop mx xs [] 0 = Inr parts"
      by (simp add: st m)
    moreover from Cons.prems(1) rej have "\<exists>t\<in>set xs. int (length (fst (snd t))) + 1 \<le> mx"
      by auto
    ultimately show ?thesis using Cons.IH by blast
  next
    assume acc: "ps' = [] @ [(snd (snd x), fst (snd x) @ [KHAN])]
        \<and> cur' = 0 + (int (length (fst (snd x))) + 1) \<and> cur' \<le> mx"
    show ?thesis
    proof (cases "fmul m lit_0_8 \<le> of_int cur'")
      case True
      with Cons.prems(2) have "parts = ps'" by (simp add: st m)
      with acc show ?thesis by auto
    next
      case False
      with Cons.prems(2) have "select_loop mx xs ps' cur' = Inr parts" by (simp add: st m)
      from select_loop_parts [OF this] acc show ?thesis by auto
    qed
  qed
qed

lemma select_loop_negative:
  assumes "mx < 0" and "select_loop mx xs [] 0 = Inr parts"
  shows "parts = []"
proof -
  have "\<forall>t\<in>set xs. \<not> int (length (fst (snd t))) + 1 \<le> mx"
    using assms(1) by auto
  from select_loop_rejects [OF this _ assms(2)] show ?thesis by simp
qed

text \<open>
  C9. The claim: throughout the selection loop the accumulated length of the accepted
  rendered units never exceeds \<open>maxLength\<close>, and hence the parts of the final joined summary
  have at most \<open>maxLength\<close> characters in total. The loop starts with the accumulated length
  0, which exceeds a negative \<open>maxLength\<close>: for \<open>maxLength = -1\<close> the initial state is not
  within the bound, and the loop ends with nothing accepted and the length 0.
\<close>

theorem negative_budget_counterexample:
  "select_loop (- 1) (sort_reverse (scored_sentences (segment [97, 6100]))) [] 0 = Inr []
   \<and> total_length [] = 0
   \<and> \<not> within_budget (- 1) ([], 0)"
  by (simp add: summarizer_eval text_eval float_eval within_budget_def total_length_def)

text \<open>
  C9, as amended: for \<open>0 \<le> maxLength\<close> the accumulated length, the sum of the lengths of the
  accepted units, each rendered as its content followed by one delimiter, never exceeds
  \<open>maxLength\<close> throughout the selection loop: \<open>within_budget\<close> holds at the start, every
  iteration keeps it, and it holds of the result. For a negative \<open>maxLength\<close> nothing is
  accepted. Hence, whenever a summary is joined, its parts, the separating spaces left out,
  have at most \<open>maxLength\<close> characters in total.
\<close>

theorem selection_within_budget:
  "(0 \<le> mx \<longrightarrow> within_budget mx ([], 0))
   \<and> (\<forall>x s. within_budget mx s \<longrightarrow> within_budget mx (select_step mx x s))
   \<and> (\<forall>parts. select_loop mx (sort_reverse (scored_sentences (segment text))) [] 0 = Inr parts \<longrightarrow>
         (0 \<le> mx \<longrightarrow> within_budget mx (parts, total_length parts))
         \<and> (0 \<le> mx \<or> parts = [])
         \<and> (\<forall>p\<in>set parts. \<exists>unit\<in>set (segment text). snd p = unit @ [KHAN])
         \<and> (parts \<noteq> [] \<longrightarrow>
               extractive_summarize text mx = Inr (join_space (map snd (sort_key fst parts)))
               \<and> (\<Sum>s\<leftarrow>map snd (sort_key fst parts). int (length s)) \<le> mx))"
proof (intro conjI allI impI)
  assume "0 \<le> mx"
  then show "within_budget mx ([], 0)"
    by (simp add: within_budget_def total_length_def)
next
  fix x s
  assume "within_budget mx s"
  then show "within_budget mx (select_step mx x s)"
    by (rule within_budget_step)
next
  fix parts
  assume run: "select_loop mx (sort_reverse (scored_sentences (segment text))) [] 0 = Inr parts"
  have inv: "within_budget mx (parts, total_length parts)" if "0 \<le> mx"
  proof -
    have "within_budget mx ([], 0)"
      using that by (simp add: within_budget_def total_length_def)
    from select_loop_within_budget [OF this run] show ?thesis .
  qed
  show "within_budget mx (parts, total_length parts)" if "0 \<le> mx"
    using inv that .
  show neg: "0 \<le> mx \<or> parts = []"
    using select_loop_negative [OF _ run] by (cases "mx < 0") auto
  show "\<forall>p\<in>set parts. \<exists>unit\<in>set (segment text). snd p = unit @ [KHAN]"
    using selection_structure [OF run] by auto
  assume ne: "parts \<noteq> []"
  show "extractive_summarize text mx = Inr (join_space (map snd (sort_key fst parts)))"
    using extractive_selection [OF run ne] by simp
  have "mset (sort_key fst parts) = mset parts"
    by simp
  then have "mset (map (\<lambda>p. int (length (snd p))) (sort_key fst parts))
      = mset (map (\<lambda>p. int (length (snd p))) parts)"
    by (simp only: mset_map)
  then have "(\<Sum>p\<leftarrow>sort_key fst parts. int (length (snd p))) = total_length parts"
    unfolding total_length_def by (metis sum_mset_sum_list)
  moreover have "total_length parts \<le> mx"
    using inv neg ne by (auto simp: within_budget_def)
  ultimately show "(\<Sum>s\<leftarrow>map snd (sort_key fst parts). int (length s)) \<le> mx"
    by (simp add: o_def)
qed

theorem selection_within_budget_witness:
  "(0::int) \<le> 10
   \<and> within_budget 10 ([], 0)
   \<and> select_loop 10 (sort_reverse (scored_sentences (segment [97, 97, 97, 97, 6100, 98, 98, 98, 98, 6100]))) [] 0
       = Inr [(0, [97, 97, 97, 97, 6100]), (1, [98, 98, 98, 98, 6100])]
   \<and> within_budget 10 ([(0, [97, 97, 97, 97, 6100]), (1, [98, 98, 98, 98, 6100])], 10)
   \<and> total_length [(0, [97, 97, 97, 97, 6100]), (1, [98, 98, 98, 98, 6100])] = 10
   \<and> extractive_summarize [97, 97, 97, 97, 6100, 98, 98, 98, 98, 6100] 10
       = Inr [97, 97, 97, 97, 6100, 32, 98, 98, 98, 98, 6100]"
  using selection_within_budget [of 10 "[97, 97, 97, 97, 6100, 98, 98, 98, 98, 6100]"]
  by (simp add: summarizer_eval text_eval float_eval within_budget_def total_length_def)

text \<open>
  C5. Whatever the order in which the loop accepted them, the accepted units appear in the
  summary in ascending order of their original index: the summary is the join of the
  rendered units at the indexes \<open>idxs\<close>, which are strictly ascending and are exactly the
  indexes of the accepted parts.
\<close>

theorem summary_in_reading_order:
  assumes "select_loop mx (sort_reverse (scored_sentences (segment text))) [] 0 = Inr parts"
    and "parts \<noteq> []"
  shows "\<exists>idxs. sorted_wrt (<) idxs \<and> set idxs = fst ` set parts
    \<and> map snd (sort_key fst parts) = map (\<lambda>i. segment text ! i @ [KHAN]) idxs
    \<and> extractive_summarize text mx = Inr (join_space (map (\<lambda>i. segment text ! i @ [KHAN]) idxs))"
proof -
  define idxs where "idxs = map fst (sort_key fst parts)"
  from extractive_selection [OF assms, folded idxs_def]
  have 1: "sorted_wrt (<) idxs"
    and 2: "map snd (sort_key fst parts) = map (\<lambda>i. segment text ! i @ [KHAN]) idxs"
    and 3: "extractive_summarize text mx = Inr (join_space (map snd (sort_key fst parts)))"
    by blast+
  have 4: "set idxs = fst ` set parts"
    by (simp add: idxs_def)
  have 5: "extractive_summarize text mx
      = Inr (join_space (map (\<lambda>i. segment text ! i @ [KHAN]) idxs))"
    using 3 by (simp only: 2)
  show ?thesis using 1 2 4 5 by blast
qed

theorem summary_in_reading_order_witness:
  "select_loop 10 (sort_reverse (scored_sentences (segment [97, 97, 6100, 98, 98, 98, 98, 6100]))) [] 0
     = Inr [(1, [98, 98, 98, 98, 6100]), (0, [97, 97, 6100])]
   \<and> extractive_summarize [97, 97, 6100, 98, 98, 98, 98, 6100] 10
     = Inr [97, 97, 6100, 32, 98, 98, 98, 98, 6100]"
proof -
  have run: "select_loop 10 (sort_reverse (scored_sentences (segment [97, 97, 6100, 98, 98, 98, 98, 6100]))) [] 0
     = Inr [(1, [98, 98, 98, 98, 6100]), (0, [97, 97, 6100])]"
    by (simp add: summarizer_eval text_eval float_eval)
  from summary_in_reading_order [OF run] run show ?thesis
    by (simp add: summarizer_eval text_eval float_eval)
qed

text \<open>
  C10. The claim: for \<open>0 < maxLength\<close> and a text with at least one sentence, the summarizer
  returns the truncation \<^verbatim>\<open>text[:maxLength]\<close> if and only if no sentence satisfies
  \<open>length(content) + 1 \<le> maxLength\<close>, and a non-empty joined selection otherwise. The two
  results are not exclusive: for the text \<^verbatim>\<open>aaaa\<close> with its delimiter and \<open>maxLength = 5\<close> the
  sentence fits, and the selection that is returned is the truncation of the text.
\<close>

theorem truncation_iff_counterexample:
  "(0::int) < 5
   \<and> segment [97, 97, 97, 97, 6100] = [[97, 97, 97, 97]]
   \<and> some_fits 5 (segment [97, 97, 97, 97, 6100])
   \<and> extractive_summarize [97, 97, 97, 97, 6100] 5 = Inr (slice_to [97, 97, 97, 97, 6100] 5)"
  by (simp add: summarizer_eval text_eval float_eval some_fits_def)

text \<open>
  C10, as amended: for \<open>0 < maxLength < 2 ^ 1023\<close> and a text with at least one sentence, the
  summarizer returns a string. When no sentence satisfies \<open>length(content) + 1 \<le> maxLength\<close>
  it is the truncation \<^verbatim>\<open>text[:maxLength]\<close>; otherwise it is a non-empty summary, the join
  by single spaces of one or more rendered sentences in their original order (the early
  exit cannot fire before the first acceptance), which may happen to equal the truncation.
\<close>

theorem truncation_or_selection:
  assumes "0 < mx" and "mx < 2 ^ 1023" and "segment text \<noteq> []"
  shows "\<exists>r. extractive_summarize text mx = Inr r
    \<and> (if some_fits mx (segment text)
        then r \<noteq> []
          \<and> (\<exists>idxs. idxs \<noteq> [] \<and> sorted_wrt (<) idxs \<and> set idxs \<subseteq> {..<length (segment text)}
                \<and> r = join_space (map (\<lambda>i. segment text ! i @ [KHAN]) idxs))
        else r = slice_to text mx)"
proof -
  have "\<bar>mx\<bar> < 2 ^ 1023"
    using assms(1,2) by simp
  from float_of_int_small [OF this] obtain m where m: "float_of_int mx = Inr m"
    by blast
  from select_loop_total [OF m] obtain parts where
    run: "select_loop mx (sort_reverse (scored_sentences (segment text))) [] 0 = Inr parts"
    by blast
  have fits_iff: "some_fits mx (segment text)
      \<longleftrightarrow> (\<exists>t\<in>set (sort_reverse (scored_sentences (segment text))).
            int (length (fst (snd t))) + 1 \<le> mx)"
    unfolding some_fits_def list_ex_iff sentences_of_sorted [of "segment text", symmetric]
    by blast
  show ?thesis
  proof (cases "some_fits mx (segment text)")
    case True
    then have ne: "parts \<noteq> []"
      using select_loop_accepts [OF assms(1) _ run] fits_iff by blast
    define idxs where "idxs = map fst (sort_key fst parts)"
    from extractive_selection [OF run ne, folded idxs_def]
    have 1: "sorted_wrt (<) idxs" and 2: "set idxs \<subseteq> {..<length (segment text)}"
      and 3: "map snd (sort_key fst parts) = map (\<lambda>i. segment text ! i @ [KHAN]) idxs"
      and 4: "extractive_summarize text mx = Inr (join_space (map snd (sort_key fst parts)))"
      and 5: "join_space (map snd (sort_key fst parts)) \<noteq> []"
      by blast+
    have 6: "idxs \<noteq> []"
      using ne by (simp add: idxs_def) (metis length_sort length_0_conv)
    have "extractive_summarize text mx
        = Inr (join_space (map (\<lambda>i. segment text ! i @ [KHAN]) idxs))"
      and "join_space (map (\<lambda>i. segment text ! i @ [KHAN]) idxs) \<noteq> []"
      using 4 5 unfolding 3 by blast+
    with True 1 2 6 show ?thesis by auto
  next
    case False
    then have "\<forall>t\<in>set (sort_reverse (scored_sentences (segment text))).
        \<not> int (length (fst (snd t))) + 1 \<le> mx"
      using fits_iff by blast
    from select_loop_rejects [OF this _ run] have "parts = []" by simp
    with run assms(3) False show ?thesis
      by (simp add: extractive_summarize_def Let_def)
  qed
qed

theorem truncation_or_selection_witness:
  "(0::int) < 10 \<and> (10::int) < 2 ^ 1023
   \<and> segment [97, 97, 6100, 98, 98, 98, 98, 6100] = [[97, 97], [98, 98, 98, 98]]
   \<and> some_fits 10 (segment [97, 97, 6100, 98, 98, 98, 98, 6100])
   \<and> extractive_summarize [97, 97, 6100, 98, 98, 98, 98, 6100] 10
       = Inr [97, 97, 6100, 32, 98, 98, 98, 98, 6100]"
  using truncation_or_selection [of 10 "[97, 97, 6100, 98, 98, 98, 98, 6100]"]
  by (simp add: summarizer_eval text_eval float_eval some_fits_def)

subsection \<open>The facade\<close>

text \<open>
  C2. The claim: \<^verbatim>\<open>summarize\<close> never raises, for every text, \<open>maxLength\<close> and \<open>minLength\<close>.
  The extractive path is outside the \<^verbatim>\<open>try\<close>, and its loop computes \<^verbatim>\<open>max_length * 0.8\<close>:
  for \<open>maxLength = 2 ^ 1024\<close> and a text with a sentence the conversion to a float raises
  \<^verbatim>\<open>OverflowError\<close>, which leaves \<^verbatim>\<open>summarize\<close>.
\<close>

theorem summarize_raises_counterexample:
  "summarize \<lparr>model = None, tokenizer = None\<rparr> [97, 6100] (2 ^ 1024) 50 = Inl OverflowError"
proof -
  have "float_of_int (2 ^ 1024) = Inl OverflowError"
    by (rule float_of_int_large) simp
  moreover have "segment [97, 6100] = [[97]]"
    by (simp add: text_eval)
  ultimately show ?thesis
    by (simp add: summarize_def extractive_summarize_def scored_sentences_def sort_reverse_def)
qed

text \<open>
  C2, as amended: for every \<open>maxLength\<close> of magnitude below \<open>2 ^ 1023\<close>, every text and every
  \<open>minLength\<close>, \<^verbatim>\<open>summarize\<close> returns a string; when the model is absent, or when a step of the
  neural path raises (the tokenizer being absent is one such case), the string is the
  extractive result for the text and \<open>maxLength\<close>.
\<close>

theorem summarize_returns:
  assumes "\<bar>mx\<bar> < 2 ^ 1023"
  shows "\<exists>s. summarize st text mx mn = Inr s
    \<and> (model st = None \<or> (\<exists>e. neural_summarize st text mx mn = Inl e)
         \<longrightarrow> extractive_summarize text mx = Inr s)"
proof -
  obtain s where s: "extractive_summarize text mx = Inr s"
    using extractive_summarize_total [OF assms] by blast
  show ?thesis
  proof (cases "model st = None \<or> (\<exists>e. neural_summarize st text mx mn = Inl e)")
    case True
    then have "summarize st text mx mn = Inr s"
      by (auto simp: summarize_def s)
    then show ?thesis using s by simp
  next
    case False
    then obtain r where "neural_summarize st text mx mn = Inr r"
      by (cases "neural_summarize st text mx mn") auto
    then show ?thesis using False by (auto simp: summarize_def)
  qed
qed

theorem summarize_returns_witness:
  "\<bar>5::int\<bar> < 2 ^ 1023
   \<and> neural_summarize \<lparr>model = Some (\<lambda>inputs a b. Inr inputs), tokenizer = None\<rparr>
        [97, 97, 97, 97, 6100] 5 50 = Inl TypeError
   \<and> summarize \<lparr>model = Some (\<lambda>inputs a b. Inr inputs), tokenizer = None\<rparr>
        [97, 97, 97, 97, 6100] 5 50 = Inr [97, 97, 97, 97, 6100]
   \<and> extractive_summarize [97, 97, 97, 97, 6100] 5 = Inr [97, 97, 97, 97, 6100]"
  using summarize_returns [of 5 "\<lparr>model = Some (\<lambda>inputs a b. Inr inputs), tokenizer = None\<rparr>"
      "[97, 97, 97, 97, 6100]" 50]
  by (simp add: summarize_def neural_summarize_def summarizer_eval text_eval float_eval)







subsection \<open>The endpoint\<close>

text \<open>
  C8. The claim: a request whose text is empty after trimming, such as three spaces, gets
  status 400 with the no-text message, and the summarizer is not called. The first check is
  \<^verbatim>\<open>if not text\<close>, on the untrimmed text, which three spaces pass; the second check, on the
  trimmed length, answers them with the too-short message.
\<close>

theorem blank_text_counterexample:
  "api_summarize \<lparr>model = None, tokenizer = None\<rparr>
      \<lparr>req_text = Some [32, 32, 32], req_max_length = None, req_min_length = None\<rparr>
     = ((400, ErrorBody too_short_message), [])
   \<and> strip [32, 32, 32] = []
   \<and> too_short_message \<noteq> no_text_message"
  by (simp add: api_summarize_def request_text_def int_field_def text_eval
      too_short_message_def no_text_message_def)

text \<open>
  C8, as amended: for a request whose text is missing, or is a string that is empty after
  trimming, the summarizer is never called. When \<^verbatim>\<open>int\<close> accepts \<^verbatim>\<open>max_length\<close> and
  \<^verbatim>\<open>min_length\<close>, or they are missing, the status is 400, with the no-text message when the
  text is missing or the empty string, and with the too-short message when it is made of
  whitespace, such as three spaces. When \<^verbatim>\<open>int\<close> raises on one of them, \<^verbatim>\<open>max_length\<close> first,
  the status is 500: the conversions come before the checks of the text.
\<close>

theorem blank_text_rejected:
  assumes "strip (request_text data) = []"
  shows "api_summarize s data =
      (case int_field 150 (req_max_length data) of
         Inl e \<Rightarrow> ((500, InternalErrorBody e), [])
       | Inr max_length \<Rightarrow>
           (case int_field 50 (req_min_length data) of
              Inl e \<Rightarrow> ((500, InternalErrorBody e), [])
            | Inr min_length \<Rightarrow>
                ((400, ErrorBody (if request_text data = [] then no_text_message
                                  else too_short_message)), [])))
    \<and> snd (api_summarize s data) = []"
  using assms by (simp add: api_summarize_def Let_def split: sum.splits)

theorem blank_text_rejected_witness:
  "strip (request_text
      \<lparr>req_text = Some [32, 32, 32], req_max_length = Some (Inr 20), req_min_length = None\<rparr>) = []
   \<and> api_summarize \<lparr>model = None, tokenizer = None\<rparr>
        \<lparr>req_text = Some [32, 32, 32], req_max_length = Some (Inr 20), req_min_length = None\<rparr>
       = ((400, ErrorBody too_short_message), [])"
  using blank_text_rejected [of "\<lparr>req_text = Some [32, 32, 32], req_max_length = Some (Inr 20),
      req_min_length = None\<rparr>" "\<lparr>model = None, tokenizer = None\<rparr>"]
  by (simp add: request_text_def int_field_def text_eval)

end
